theory Spec2Isabelle
  imports Complex_Main "HOL-Library.AList" "HOL-Library.Sublist"
begin

section \<open>Data model\<close>

text \<open>
  The summarizer of \<^verbatim>\<open>app.py\<close> works on the result of \<^verbatim>\<open>nlp(text)\<close>, a spaCy
  document. The tokenizer and segmenter are an external collaborator, so the document is
  an argument of the model: its tokens in order, and its sentences in order. Of a token the
  code reads \<^verbatim>\<open>text\<close> (here \<open>tok_text\<close>), \<^verbatim>\<open>lemma_\<close> (here \<open>tok_lemma\<close>), \<^verbatim>\<open>is_space\<close>,
  \<^verbatim>\<open>is_punct\<close> and \<^verbatim>\<open>is_stop\<close>; of a sentence it reads \<^verbatim>\<open>start\<close>, \<^verbatim>\<open>text\<close> (here
  \<open>span_text\<close>) and its tokens. Two sentences are the same dictionary key when all three
  agree, which for the sentences of one document means the same start. Strings are lists of characters
  with code points below 256. Python floats are idealised as rationals: sums, quotients and
  the product \<^verbatim>\<open>len(sentences) * ratio\<close> are exact.
\<close>

record token =
  tok_text :: string
  tok_lemma :: string
  is_space :: bool
  is_punct :: bool
  is_stop :: bool

record span =
  start :: nat
  span_text :: string
  tokens :: "token list"

record doc =
  doc_tokens :: "token list"
  sents :: "span list"

text \<open>
  What spaCy guarantees of \<^verbatim>\<open>doc.sents\<close>: the sentences partition the tokens of the
  document in order, and their start offsets increase strictly.
\<close>

definition wf_doc :: "doc \<Rightarrow> bool" where
  "wf_doc d \<longleftrightarrow>
     doc_tokens d = concat (map tokens (sents d)) \<and> sorted_wrt (<) (map start (sents d))"

datatype error = ZeroDivisionError | ValueError

section \<open>Python built-ins used by the summarizer\<close>

text \<open>\<^verbatim>\<open>str.isspace\<close> on one character, for code points below 256.\<close>

definition isspace :: "char \<Rightarrow> bool" where
  "isspace c \<longleftrightarrow> (of_char c :: nat) \<in> {9, 10, 11, 12, 13, 28, 29, 30, 31, 32, 133, 160}"

definition strip :: "string \<Rightarrow> string" where
  "strip s = rev (dropWhile isspace (rev (dropWhile isspace s)))"

definition lower_char :: "char \<Rightarrow> char" where
  "lower_char c =
     (let n = (of_char c :: nat)
      in if (65 \<le> n \<and> n \<le> 90) \<or> (192 \<le> n \<and> n \<le> 222 \<and> n \<noteq> 215)
         then char_of (n + 32) else c)"

definition lower :: "string \<Rightarrow> string" where
  "lower s = map lower_char s"

text \<open>\<^verbatim>\<open>sep.join(xs)\<close>.\<close>

fun join :: "string \<Rightarrow> string list \<Rightarrow> string" where
  "join sep [] = []"
| "join sep [x] = x"
| "join sep (x # y # ys) = x @ sep @ join sep (y # ys)"

text \<open>\<^verbatim>\<open>string.punctuation\<close>, and \<^verbatim>\<open>set(punctuation)\<close>: the one-character strings.\<close>

definition punctuation :: string where
  "punctuation =
     [CHR ''!'', CHR 0x22, CHR ''#'', CHR ''$'', CHR ''%'', CHR ''&'', CHR 0x27, CHR ''('',
      CHR '')'', CHR ''*'', CHR ''+'', CHR '','', CHR ''-'', CHR ''.'', CHR ''/'', CHR '':'',
      CHR '';'', CHR ''<'', CHR ''='', CHR ''>'', CHR ''?'', CHR ''@'', CHR ''['', CHR 0x5C,
      CHR '']'', CHR ''^'', CHR ''_'', CHR 0x60, CHR ''{'', CHR ''|'', CHR ''}'', CHR ''~'']"

definition punct_set :: "string set" where
  "punct_set = (\<lambda>c. [c]) ` set punctuation"

text \<open>\<^verbatim>\<open>d.get(k, 0)\<close> on a dictionary kept as an association list in insertion order.\<close>

definition get0 :: "('k \<times> int) list \<Rightarrow> 'k \<Rightarrow> int" where
  "get0 d k = (case map_of d k of None \<Rightarrow> 0 | Some c \<Rightarrow> c)"

text \<open>\<^verbatim>\<open>max(xs)\<close> raises ValueError on an empty sequence.\<close>

fun py_max :: "int list \<Rightarrow> error + int" where
  "py_max [] = Inl ValueError"
| "py_max (x # xs) = Inr (fold max xs x)"

text \<open>\<^verbatim>\<open>a / b\<close> raises ZeroDivisionError when the divisor is zero.\<close>

definition truediv :: "rat \<Rightarrow> rat \<Rightarrow> error + rat" where
  "truediv a b = (if b = 0 then Inl ZeroDivisionError else Inr (a / b))"

text \<open>\<^verbatim>\<open>int(x)\<close> truncates towards zero.\<close>

definition py_int :: "rat \<Rightarrow> int" where
  "py_int q = (if 0 \<le> q then \<lfloor>q\<rfloor> else \<lceil>q\<rceil>)"

text \<open>\<^verbatim>\<open>xs[:m]\<close>: a negative bound counts from the end.\<close>

definition slice_to :: "'a list \<Rightarrow> int \<Rightarrow> 'a list" where
  "slice_to xs m =
     (if m < 0 then take (nat (int (length xs) + m)) xs else take (nat m) xs)"

text \<open>
  \<^verbatim>\<open>heapq.nlargest(n, xs, key)\<close>: the library documents it as
  \<^verbatim>\<open>sorted(xs, key=key, reverse=True)[:n]\<close>, a stable sort, so that of two elements
  with equal keys the one met first comes first; for \<^verbatim>\<open>n <= 0\<close> the result is empty.
\<close>

definition nlargest :: "int \<Rightarrow> 'a list \<Rightarrow> ('a \<Rightarrow> rat) \<Rightarrow> 'a list" where
  "nlargest n xs key = (if n \<le> 0 then [] else take (nat n) (sort_key (\<lambda>x. - key x) xs))"

section \<open>The summarizer\<close>

subsection \<open>Word frequencies (lines 28 to 39)\<close>

definition word_freq_step ::
  "string set \<Rightarrow> (string \<times> int) list \<Rightarrow> token \<Rightarrow> (string \<times> int) list" where
  "word_freq_step STOP_WORDS word_freq t =
     (if is_space t \<or> is_punct t then word_freq
      else if is_stop t then word_freq
      else if tok_text t \<in> punct_set then word_freq
      else let key = lower (tok_lemma t)
           in if key = [] \<or> key \<in> STOP_WORDS then word_freq
              else AList.update key (get0 word_freq key + 1) word_freq)"

definition count_words :: "string set \<Rightarrow> token list \<Rightarrow> (string \<times> int) list" where
  "count_words STOP_WORDS toks = foldl (word_freq_step STOP_WORDS) [] toks"

subsection \<open>Normalization (lines 44 to 46)\<close>

fun normalize_loop :: "int \<Rightarrow> (string \<times> int) list \<Rightarrow> error + (string \<times> rat) list" where
  "normalize_loop max_f [] = Inr []"
| "normalize_loop max_f ((w, c) # rest) =
     (case truediv (of_int c) (of_int max_f) of
        Inl e \<Rightarrow> Inl e
      | Inr q \<Rightarrow>
          (case normalize_loop max_f rest of
             Inl e \<Rightarrow> Inl e
           | Inr r \<Rightarrow> Inr ((w, q) # r)))"

definition normalize :: "(string \<times> int) list \<Rightarrow> error + (string \<times> rat) list" where
  "normalize word_freq =
     (case py_max (map snd word_freq) of
        Inl e \<Rightarrow> Inl e
      | Inr max_f \<Rightarrow> normalize_loop max_f word_freq)"

subsection \<open>Sentence scores (lines 48 to 61)\<close>

fun score_token :: "(string \<times> rat) list \<Rightarrow> rat \<times> int \<Rightarrow> token \<Rightarrow> rat \<times> int" where
  "score_token word_freq (score, len) t =
     (if is_space t \<or> is_punct t then (score, len)
      else let key = lower (tok_lemma t)
           in ((case map_of word_freq key of Some w \<Rightarrow> score + w | None \<Rightarrow> score),
               len + 1))"

fun score_sentences ::
  "(string \<times> rat) list \<Rightarrow> (span \<times> rat) list \<Rightarrow> span list \<Rightarrow> error + (span \<times> rat) list" where
  "score_sentences word_freq sent_scores [] = Inr sent_scores"
| "score_sentences word_freq sent_scores (sent # rest) =
     (case foldl (score_token word_freq) (0, 0) (tokens sent) of
        (score, len) \<Rightarrow>
          if len > 0 then
            (case truediv score (of_int len) of
               Inl e \<Rightarrow> Inl e
             | Inr sc \<Rightarrow> score_sentences word_freq (AList.update sent sc sent_scores) rest)
          else score_sentences word_freq sent_scores rest)"

subsection \<open>Target count (lines 63 and 64)\<close>

definition target_K :: "rat \<Rightarrow> int \<Rightarrow> int \<Rightarrow> nat \<Rightarrow> int" where
  "target_K ratio min_sentences max_sentences n =
     (let K = max min_sentences (py_int (of_nat n * ratio))
      in min (min K max_sentences) (int n))"

subsection \<open>Selection and the whole function\<close>

text \<open>
  The sentences whose trimmed texts are joined: the prefix of line 42 when no content word
  was counted, otherwise the top K by score, sorted by start (lines 66 and 67).
\<close>

definition select_sentences ::
  "string set \<Rightarrow> doc \<Rightarrow> rat \<Rightarrow> int \<Rightarrow> int \<Rightarrow> error + span list" where
  "select_sentences STOP_WORDS d ratio min_sentences max_sentences =
     (let sentences = sents d;
          word_freq = count_words STOP_WORDS (doc_tokens d)
      in if word_freq = [] then Inr (slice_to sentences min_sentences)
         else
           (case normalize word_freq of
              Inl e \<Rightarrow> Inl e
            | Inr weights \<Rightarrow>
                (case score_sentences weights [] sentences of
                   Inl e \<Rightarrow> Inl e
                 | Inr sent_scores \<Rightarrow>
                     let K = target_K ratio min_sentences max_sentences (length sentences);
                         top = nlargest K (map fst sent_scores)
                                 (\<lambda>s. the (map_of sent_scores s));
                         chosen = sort_key start top
                     in Inr chosen)))"

definition summarize_text_spacy ::
  "string set \<Rightarrow> string \<Rightarrow> doc \<Rightarrow> rat \<Rightarrow> int \<Rightarrow> int \<Rightarrow> error + string" where
  "summarize_text_spacy STOP_WORDS text d ratio min_sentences max_sentences =
     (if text = [] \<or> strip text = [] then Inr []
      else if sents d = [] then Inr (strip text)
      else
        (case select_sentences STOP_WORDS d ratio min_sentences max_sentences of
           Inl e \<Rightarrow> Inl e
         | Inr chosen \<Rightarrow> Inr (join '' '' (map (\<lambda>s. strip (span_text s)) chosen))))"

section \<open>Notions used to state the results\<close>

text \<open>A token that sentence scoring does not skip (line 53).\<close>

definition content_token :: "token \<Rightarrow> bool" where
  "content_token t \<longleftrightarrow> \<not> (is_space t \<or> is_punct t)"

text \<open>A token that passes all the filters of lines 30 to 38 and is counted.\<close>

definition counted_token :: "string set \<Rightarrow> token \<Rightarrow> bool" where
  "counted_token STOP_WORDS t \<longleftrightarrow>
     \<not> (is_space t \<or> is_punct t) \<and> \<not> is_stop t \<and> tok_text t \<notin> punct_set \<and>
     lower (tok_lemma t) \<noteq> [] \<and> lower (tok_lemma t) \<notin> STOP_WORDS"

text \<open>Invariant of the counting loop: every stored counter is at least 1.\<close>

definition pos_counts :: "(string \<times> int) list \<Rightarrow> bool" where
  "pos_counts fr \<longleftrightarrow> (\<forall>p \<in> set fr. 1 \<le> snd p)"

text \<open>
  The salience score in the words of the specification: skip space and punctuation tokens
  only; every remaining token adds the weight of its lowercased lemma, or 0 when the lemma
  has no weight; divide by the number of remaining tokens; a sentence without such tokens
  gets no score.
\<close>

definition term_weight :: "(string \<times> rat) list \<Rightarrow> token \<Rightarrow> rat" where
  "term_weight weights t =
     (case map_of weights (lower (tok_lemma t)) of Some w \<Rightarrow> w | None \<Rightarrow> 0)"

definition spec_score :: "(string \<times> rat) list \<Rightarrow> span \<Rightarrow> rat option" where
  "spec_score weights sent =
     (let toks = filter content_token (tokens sent)
      in if length toks = 0 then None
         else Some (sum_list (map (term_weight weights) toks) / of_nat (length toks)))"

text \<open>One pass of the scoring loop in closed form, and the loop over all sentences.\<close>

definition record_score ::
  "(string \<times> rat) list \<Rightarrow> (span \<times> rat) list \<Rightarrow> span \<Rightarrow> (span \<times> rat) list" where
  "record_score weights acc s =
     (case spec_score weights s of None \<Rightarrow> acc | Some sc \<Rightarrow> AList.update s sc acc)"

text \<open>The weight map after normalization, in closed form.\<close>

definition norm_weights :: "(string \<times> int) list \<Rightarrow> (string \<times> rat) list" where
  "norm_weights fr = map (\<lambda>p. (fst p, of_int (snd p) / of_int (Max (set (map snd fr))))) fr"

text \<open>The score dictionary of a document whose weight map is not empty.\<close>

definition ranked :: "string set \<Rightarrow> doc \<Rightarrow> (span \<times> rat) list" where
  "ranked sw d =
     foldl (record_score (norm_weights (count_words sw (doc_tokens d)))) [] (sents d)"

text \<open>A sentence that the scoring loop gives a score: it has a token that is not skipped.\<close>

definition scorable :: "span \<Rightarrow> bool" where
  "scorable s \<longleftrightarrow> filter content_token (tokens s) \<noteq> []"

text \<open>
  The configuration contract of the specification: the ratio lies in (0,1] and
  \<open>1 \<le> minSentences \<le> maxSentences\<close>.
\<close>

definition valid_config :: "rat \<Rightarrow> int \<Rightarrow> int \<Rightarrow> bool" where
  "valid_config ratio min_sentences max_sentences \<longleftrightarrow>
     0 < ratio \<and> ratio \<le> 1 \<and> 1 \<le> min_sentences \<and> min_sentences \<le> max_sentences"


text \<open>The summary string of a list of chosen sentences (lines 42 and 69).\<close>

definition summary_of :: "span list \<Rightarrow> string" where
  "summary_of chosen = join '' '' (map (\<lambda>s. strip (span_text s)) chosen)"

section \<open>Example documents\<close>

text \<open>Tokens as a tokenizer would flag them, and a document of three sentences, the second
  of which is a lone exclamation mark.\<close>

definition word :: "string \<Rightarrow> string \<Rightarrow> token" where
  "word t l = \<lparr>tok_text = t, tok_lemma = l, is_space = False, is_punct = False, is_stop = False\<rparr>"

definition stop_word :: "string \<Rightarrow> string \<Rightarrow> token" where
  "stop_word t l = \<lparr>tok_text = t, tok_lemma = l, is_space = False, is_punct = False, is_stop = True\<rparr>"

definition punct :: "string \<Rightarrow> token" where
  "punct t = \<lparr>tok_text = t, tok_lemma = t, is_space = False, is_punct = True, is_stop = False\<rparr>"

definition blank :: "string \<Rightarrow> token" where
  "blank t = \<lparr>tok_text = t, tok_lemma = t, is_space = True, is_punct = False, is_stop = False\<rparr>"

definition ex_stop :: "string set" where
  "ex_stop = {''the'', ''a''}"

definition ex_s0 :: span where
  "ex_s0 = \<lparr>start = 0, span_text = ''The cats purr.'',
            tokens = [stop_word ''The'' ''the'', word ''cats'' ''cat'', word ''purr'' ''purr'',
                      punct ''.'']\<rparr>"

definition ex_s1 :: span where
  "ex_s1 = \<lparr>start = 4, span_text = ''!'', tokens = [punct ''!'']\<rparr>"

definition ex_s2 :: span where
  "ex_s2 = \<lparr>start = 5, span_text = ''Cats sleep.'',
            tokens = [word ''Cats'' ''cat'', word ''sleep'' ''sleep'', punct ''.'']\<rparr>"

definition ex_text :: string where
  "ex_text = ''The cats purr. ! Cats sleep.''"

definition ex_doc :: doc where
  "ex_doc = \<lparr>doc_tokens = tokens ex_s0 @ tokens ex_s1 @ tokens ex_s2,
             sents = [ex_s0, ex_s1, ex_s2]\<rparr>"

definition ex_weights :: "(string \<times> rat) list" where
  "ex_weights = [(''cat'', 1), (''purr'', 1 / 2), (''sleep'', 1 / 2)]"

text \<open>Two sentences with the same score.\<close>

definition tie_s0 :: span where
  "tie_s0 = \<lparr>start = 0, span_text = ''Cats sleep.'',
             tokens = [word ''Cats'' ''cat'', word ''sleep'' ''sleep'', punct ''.'']\<rparr>"



text \<open>A document of one sentence.\<close>

definition one_doc :: doc where
  "one_doc = \<lparr>doc_tokens = tokens tie_s0, sents = [tie_s0]\<rparr>"

text \<open>A document without content words; the second sentence has surrounding blanks.\<close>

definition quiet_s0 :: span where
  "quiet_s0 = \<lparr>start = 0, span_text = ''The !'',
               tokens = [stop_word ''The'' ''the'', punct ''!'']\<rparr>"

definition quiet_s1 :: span where
  "quiet_s1 = \<lparr>start = 2, span_text = ''  ... '',
               tokens = [blank ''  '', punct ''...'']\<rparr>"

definition quiet_s2 :: span where
  "quiet_s2 = \<lparr>start = 4, span_text = ''A ?'',
               tokens = [stop_word ''A'' ''a'', punct ''?'']\<rparr>"

definition quiet_doc :: doc where
  "quiet_doc = \<lparr>doc_tokens = tokens quiet_s0 @ tokens quiet_s1 @ tokens quiet_s2,
               sents = [quiet_s0, quiet_s1, quiet_s2]\<rparr>"

text \<open>The document of a text of blanks.\<close>

definition blank_doc :: doc where
  "blank_doc = \<lparr>doc_tokens = [blank ''   ''],
               sents = [\<lparr>start = 0, span_text = ''   '', tokens = [blank ''   '']\<rparr>]\<rparr>"

section \<open>Lemmas\<close>

lemma word_freq_step_skip:
  "\<not> counted_token sw t \<Longrightarrow> word_freq_step sw fr t = fr"
  by (auto simp: word_freq_step_def counted_token_def Let_def)

lemma word_freq_step_count:
  "counted_token sw t \<Longrightarrow>
     word_freq_step sw fr t =
       AList.update (lower (tok_lemma t)) (get0 fr (lower (tok_lemma t)) + 1) fr"
  by (auto simp: word_freq_step_def counted_token_def Let_def)

lemma update_not_Nil: "AList.update k v al \<noteq> []"
  by (cases al) auto

lemma foldl_step_not_Nil:
  "fr \<noteq> [] \<Longrightarrow> foldl (word_freq_step sw) fr toks \<noteq> []"
proof (induction toks arbitrary: fr)
  case Nil
  then show ?case by simp
next
  case (Cons t toks)
  show ?case
  proof (cases "counted_token sw t")
    case True
    then show ?thesis
      using Cons.IH [of "word_freq_step sw fr t"]
      by (simp add: word_freq_step_count update_not_Nil)
  next
    case False
    then show ?thesis using Cons by (simp add: word_freq_step_skip)
  qed
qed

lemma count_words_Nil_iff:
  "count_words sw toks = [] \<longleftrightarrow> (\<forall>t \<in> set toks. \<not> counted_token sw t)"
proof (induction toks)
  case Nil
  then show ?case by (simp add: count_words_def)
next
  case (Cons t toks)
  show ?case
  proof (cases "counted_token sw t")
    case True
    have "word_freq_step sw [] t \<noteq> []"
      using True by (simp add: word_freq_step_count)
    then have "foldl (word_freq_step sw) (word_freq_step sw [] t) toks \<noteq> []"
      by (rule foldl_step_not_Nil)
    then show ?thesis using True by (auto simp: count_words_def)
  next
    case False
    then show ?thesis using Cons by (simp add: count_words_def word_freq_step_skip)
  qed
qed

lemma get0_nonneg: "pos_counts fr \<Longrightarrow> 0 \<le> get0 fr k"
  unfolding get0_def pos_counts_def
  by (auto split: option.splits dest!: map_of_SomeD)

lemma pos_counts_update: "pos_counts fr \<Longrightarrow> 1 \<le> v \<Longrightarrow> pos_counts (AList.update k v fr)"
  unfolding pos_counts_def by (induction fr) auto

lemma pos_counts_step: "pos_counts fr \<Longrightarrow> pos_counts (word_freq_step sw fr t)"
proof (cases "counted_token sw t")
  case True
  assume p: "pos_counts fr"
  have "1 \<le> get0 fr (lower (tok_lemma t)) + 1" using get0_nonneg [OF p] by simp
  then show ?thesis using True p by (simp add: word_freq_step_count pos_counts_update)
next
  case False
  assume "pos_counts fr"
  then show ?thesis using False by (simp add: word_freq_step_skip)
qed

lemma pos_counts_foldl: "pos_counts fr \<Longrightarrow> pos_counts (foldl (word_freq_step sw) fr toks)"
  by (induction toks arbitrary: fr) (auto simp: pos_counts_step)

lemma pos_counts_count_words: "pos_counts (count_words sw toks)"
  unfolding count_words_def by (rule pos_counts_foldl) (simp add: pos_counts_def)

lemma py_max_Max: "py_max xs = Inr (Max (set xs))" if "xs \<noteq> []"
proof (cases xs)
  case Nil
  then show ?thesis using that by simp
next
  case (Cons y ys)
  then show ?thesis using Max.set_eq_fold [of y ys] by simp
qed

lemma normalize_loop_ok:
  "m \<noteq> 0 \<Longrightarrow>
   normalize_loop m fr = Inr (map (\<lambda>p. (fst p, of_int (snd p) / of_int m)) fr)"
  by (induction m fr rule: normalize_loop.induct) (auto simp: truediv_def)

lemma Max_counts_pos:
  assumes "fr \<noteq> []" "pos_counts fr"
  shows "1 \<le> Max (set (map snd fr))"
proof -
  obtain p where p: "p \<in> set fr" using assms(1) by (cases fr) auto
  then have "1 \<le> snd p" using assms(2) by (simp add: pos_counts_def)
  moreover have "snd p \<le> Max (set (map snd fr))" using p by (intro Max_ge) auto
  ultimately show ?thesis by linarith
qed

lemma normalize_ok:
  assumes "fr \<noteq> []" "pos_counts fr"
  shows "normalize fr =
     Inr (map (\<lambda>p. (fst p, of_int (snd p) / of_int (Max (set (map snd fr))))) fr)"
proof -
  have "Max (set (map snd fr)) \<noteq> 0" using Max_counts_pos [OF assms] by simp
  then show ?thesis using assms(1) by (simp add: normalize_def py_max_Max normalize_loop_ok)
qed

lemma foldl_score_token:
  "foldl (score_token w) (sc, n) toks =
     (sc + sum_list (map (term_weight w) (filter content_token toks)),
      n + int (length (filter content_token toks)))"
  by (induction toks arbitrary: sc n)
     (auto simp: term_weight_def content_token_def Let_def split: option.splits)

lemma score_sentences_eq:
  "score_sentences w acc ss = Inr (foldl (record_score w) acc ss)"
proof (induction ss arbitrary: acc)
  case Nil
  then show ?case by simp
next
  case (Cons s ss)
  let ?toks = "filter content_token (tokens s)"
  show ?case
  proof (cases "?toks = []")
    case True
    then show ?thesis
      using Cons.IH [of acc]
      by (simp add: foldl_score_token record_score_def spec_score_def)
  next
    case False
    then have len: "0 < length ?toks" by simp
    then show ?thesis
      using Cons.IH
      by (simp add: foldl_score_token record_score_def spec_score_def truediv_def Let_def)
  qed
qed

lemma map_of_record_score:
  "map_of (record_score w acc s) x =
     (if x = s \<and> spec_score w s \<noteq> None then spec_score w s else map_of acc x)"
  by (auto simp: record_score_def update_conv' split: option.splits)

lemma map_of_foldl_record_score:
  "map_of (foldl (record_score w) acc ss) x =
     (if x \<in> set ss \<and> spec_score w x \<noteq> None then spec_score w x else map_of acc x)"
  by (induction ss arbitrary: acc) (auto simp: map_of_record_score)

lemma keys_record_score:
  "map fst (record_score w acc s) =
     (if spec_score w s \<noteq> None \<and> s \<notin> set (map fst acc) then map fst acc @ [s]
      else map fst acc)"
  by (auto simp: record_score_def update_keys split: option.splits)

lemma keys_foldl_record_score:
  "distinct ss \<Longrightarrow> set ss \<inter> set (map fst acc) = {} \<Longrightarrow>
   map fst (foldl (record_score w) acc ss) =
     map fst acc @ filter (\<lambda>s. spec_score w s \<noteq> None) ss"
proof (induction ss arbitrary: acc)
  case Nil
  then show ?case by simp
next
  case (Cons s ss)
  have disj: "set ss \<inter> set (map fst (record_score w acc s)) = {}"
    using Cons.prems by (auto simp: keys_record_score)
  have "distinct ss" using Cons.prems by simp
  from Cons.IH [OF this disj] show ?case
    using Cons.prems by (auto simp: keys_record_score)
qed

lemma distinct_keys_record_score:
  "distinct (map fst acc) \<Longrightarrow> distinct (map fst (foldl (record_score w) acc ss))"
  by (induction ss arbitrary: acc) (auto simp: record_score_def distinct_update split: option.splits)

lemma keys_set_record_score:
  "set (map fst (foldl (record_score w) [] ss)) = {s \<in> set ss. spec_score w s \<noteq> None}"
proof -
  have "x \<in> set (map fst (foldl (record_score w) [] ss)) \<longleftrightarrow>
        x \<in> {s \<in> set ss. spec_score w s \<noteq> None}" for x
    using map_of_eq_None_iff [of "foldl (record_score w) [] ss" x]
    by (auto simp: map_of_foldl_record_score split: if_splits)
  then show ?thesis by blast
qed

lemma normalize_count_words:
  "count_words sw toks \<noteq> [] \<Longrightarrow>
   normalize (count_words sw toks) = Inr (norm_weights (count_words sw toks))"
  unfolding norm_weights_def by (rule normalize_ok) (simp_all add: pos_counts_count_words)

lemma select_sentences_empty:
  "count_words sw (doc_tokens d) = [] \<Longrightarrow>
   select_sentences sw d ratio mn mx = Inr (slice_to (sents d) mn)"
  by (simp add: select_sentences_def)

lemma select_sentences_ranked:
  "count_words sw (doc_tokens d) \<noteq> [] \<Longrightarrow>
   select_sentences sw d ratio mn mx =
     Inr (sort_key start
           (nlargest (target_K ratio mn mx (length (sents d))) (map fst (ranked sw d))
              (\<lambda>s. the (map_of (ranked sw d) s))))"
  by (simp add: select_sentences_def normalize_count_words score_sentences_eq ranked_def Let_def)

lemma select_sentences_total: "\<exists>chosen. select_sentences sw d ratio mn mx = Inr chosen"
  by (cases "count_words sw (doc_tokens d) = []")
     (simp_all add: select_sentences_empty select_sentences_ranked)

lemma spec_score_ignores_is_stop:
  "spec_score weights (s\<lparr>tokens := map (\<lambda>t. t\<lparr>is_stop := b\<rparr>) (tokens s)\<rparr>)
     = spec_score weights s"
proof -
  have 1: "filter content_token (map (\<lambda>t. t\<lparr>is_stop := b\<rparr>) ts)
        = map (\<lambda>t. t\<lparr>is_stop := b\<rparr>) (filter content_token ts)" for ts
    by (induction ts) (auto simp: content_token_def)
  have 2: "term_weight weights \<circ> is_stop_update (\<lambda>_. b) = term_weight weights"
    by (auto simp: fun_eq_iff term_weight_def)
  show ?thesis by (simp add: spec_score_def 1 2 Let_def)
qed

lemma norm_weights_range:
  assumes "fr \<noteq> []" "pos_counts fr" "p \<in> set (norm_weights fr)"
  shows "0 < snd p \<and> snd p \<le> 1"
proof -
  let ?m = "Max (set (map snd fr))"
  obtain q where q: "q \<in> set fr" and p: "p = (fst q, of_int (snd q) / of_int ?m)"
    using assms(3) by (auto simp: norm_weights_def)
  have m: "1 \<le> ?m" using assms(1,2) by (rule Max_counts_pos)
  have c: "1 \<le> snd q" using q assms(2) by (simp add: pos_counts_def)
  have le: "snd q \<le> ?m" using q by (intro Max_ge) auto
  have "0 < (of_int (snd q) :: rat) / of_int ?m" using m c by simp
  moreover have "(of_int (snd q) :: rat) / of_int ?m \<le> 1" using m le by simp
  ultimately show ?thesis by (simp add: p)
qed

lemma norm_weights_Max:
  assumes "fr \<noteq> []" "pos_counts fr"
  shows "Max (snd ` set (norm_weights fr)) = 1"
proof (rule Max_eqI)
  show "finite (snd ` set (norm_weights fr))" by simp
next
  fix y assume "y \<in> snd ` set (norm_weights fr)"
  then show "y \<le> 1" using norm_weights_range [OF assms] by auto
next
  let ?m = "Max (set (map snd fr))"
  have m: "1 \<le> ?m" using assms by (rule Max_counts_pos)
  have "?m \<in> set (map snd fr)" using assms(1) by (intro Max_in) auto
  then obtain q where q: "q \<in> set fr" "snd q = ?m" by auto
  then have "(fst q, (of_int ?m :: rat) / of_int ?m) \<in> set (norm_weights fr)"
    by (force simp: norm_weights_def)
  moreover have "(of_int ?m :: rat) / of_int ?m = 1" using m by simp
  ultimately show "1 \<in> snd ` set (norm_weights fr)" by force
qed

lemma length_nlargest: "length (nlargest n xs key) = min (nat n) (length xs)"
  by (simp add: nlargest_def min.commute)

lemma set_nlargest: "set (nlargest n xs key) \<subseteq> set xs"
proof (cases "n \<le> 0")
  case True
  then show ?thesis by (simp add: nlargest_def)
next
  case False
  have "set (take (nat n) (sort_key (\<lambda>x. - key x) xs)) \<subseteq> set (sort_key (\<lambda>x. - key x) xs)"
    by (rule set_take_subset)
  then show ?thesis using False by (simp add: nlargest_def)
qed

lemma distinct_nlargest: "distinct xs \<Longrightarrow> distinct (nlargest n xs key)"
  by (simp add: nlargest_def)




lemma sort_key_subseq:
  assumes "sorted_wrt (<) (map f xs)" "distinct ys" "set ys \<subseteq> set xs"
  shows "sort_key f ys = filter (\<lambda>x. x \<in> set ys) xs"
proof -
  let ?zs = "filter (\<lambda>x. x \<in> set ys) xs"
  have dx: "distinct (map f xs)" using assms(1) by (simp add: strict_sorted_iff)
  then have inj: "inj_on f (set xs)" by (simp add: distinct_map)
  have sx: "sorted (map f xs)" using assms(1) by (simp add: strict_sorted_iff)
  have "map f (sort_key f ys) = map f ?zs"
  proof (rule sorted_distinct_set_unique)
    show "sorted (map f (sort_key f ys))" by (rule sorted_sort_key)
    show "distinct (map f (sort_key f ys))"
      using assms(2,3) inj by (auto simp: distinct_map intro: inj_on_subset)
    show "sorted (map f ?zs)" using sx by (rule sorted_filter)
    show "distinct (map f ?zs)" using dx by (rule distinct_map_filter)
    show "set (map f (sort_key f ys)) = set (map f ?zs)" using assms(3) by auto
  qed
  moreover have "inj_on f (set (sort_key f ys) \<union> set ?zs)"
    using inj assms(3) by (auto intro: inj_on_subset)
  ultimately show ?thesis by (simp add: inj_on_map_eq_map)
qed

lemma spec_score_scorable: "(\<exists>y. spec_score w s = Some y) \<longleftrightarrow> scorable s"
  by (simp add: spec_score_def scorable_def Let_def)

lemma keys_ranked:
  "distinct (sents d) \<Longrightarrow> map fst (ranked sw d) = filter scorable (sents d)"
  using keys_foldl_record_score [of "sents d" "[]"]
  by (simp add: ranked_def spec_score_scorable)

lemma distinct_keys_ranked: "distinct (map fst (ranked sw d))"
  unfolding ranked_def by (rule distinct_keys_record_score) simp

lemma set_keys_ranked: "set (map fst (ranked sw d)) = {s \<in> set (sents d). scorable s}"
  using keys_set_record_score [of "norm_weights (count_words sw (doc_tokens d))" "sents d"]
  by (simp add: ranked_def spec_score_scorable)


lemma summarize_eq:
  assumes "text \<noteq> []" "strip text \<noteq> []" "sents d \<noteq> []"
    and "select_sentences sw d ratio mn mx = Inr chosen"
  shows "summarize_text_spacy sw text d ratio mn mx = Inr (summary_of chosen)"
  using assms by (simp add: summarize_text_spacy_def summary_of_def)


lemma target_K_upper: "target_K ratio mn mx n \<le> min mx (int n)"
  by (simp add: target_K_def Let_def)

lemma target_K_lower: "mn \<le> mx \<Longrightarrow> mn \<le> int n \<Longrightarrow> mn \<le> target_K ratio mn mx n"
  by (simp add: target_K_def Let_def)

lemma length_slice_to: "0 \<le> m \<Longrightarrow> length (slice_to xs m) = min (nat m) (length xs)"
  by (simp add: slice_to_def min.commute)

lemma slice_to_take: "\<exists>k. slice_to xs m = take k xs"
  by (auto simp: slice_to_def)

lemma chosen_ranked:
  assumes "count_words sw (doc_tokens d) \<noteq> []"
  shows "\<exists>top. select_sentences sw d ratio mn mx = Inr (sort_key start top) \<and>
           top = nlargest (target_K ratio mn mx (length (sents d))) (map fst (ranked sw d))
                   (\<lambda>s. the (map_of (ranked sw d) s)) \<and>
           distinct top \<and> set top \<subseteq> set (sents d) \<and>
           length top = min (nat (target_K ratio mn mx (length (sents d))))
                            (length (map fst (ranked sw d)))"
proof -
  let ?top = "nlargest (target_K ratio mn mx (length (sents d))) (map fst (ranked sw d))
                   (\<lambda>s. the (map_of (ranked sw d) s))"
  have "select_sentences sw d ratio mn mx = Inr (sort_key start ?top)"
    using assms by (rule select_sentences_ranked)
  moreover have "distinct ?top" using distinct_keys_ranked by (rule distinct_nlargest)
  moreover have "set ?top \<subseteq> set (sents d)"
    using set_nlargest [of _ "map fst (ranked sw d)"] set_keys_ranked [of sw d] by blast
  moreover have "length ?top = min (nat (target_K ratio mn mx (length (sents d))))
                            (length (map fst (ranked sw d)))"
    by (rule length_nlargest)
  ultimately show ?thesis by blast
qed



section \<open>Results\<close>

text \<open>
  C10. The summarizer is total: for every text, tokenization and configuration it returns a
  string and reaches no error branch. Both divisions are guarded: when the frequency map is
  not empty, \<^verbatim>\<open>max\<close> succeeds with a value of at least 1 and normalization succeeds; the
  scoring loop divides only by a positive token count, so it succeeds for every weight map
  and every list of sentences.
\<close>

theorem summarize_total:
  "(\<exists>summary. summarize_text_spacy STOP_WORDS text d ratio min_sentences max_sentences
       = Inr summary) \<and>
   (count_words STOP_WORDS toks = [] \<or>
     (\<exists>max_f weights. py_max (map snd (count_words STOP_WORDS toks)) = Inr max_f \<and>
        1 \<le> max_f \<and> normalize (count_words STOP_WORDS toks) = Inr weights)) \<and>
   (\<exists>sent_scores. score_sentences word_freq [] sentences = Inr sent_scores)"
proof (intro conjI)
  obtain chosen where
    "select_sentences STOP_WORDS d ratio min_sentences max_sentences = Inr chosen"
    using select_sentences_total by blast
  then show "\<exists>summary.
      summarize_text_spacy STOP_WORDS text d ratio min_sentences max_sentences = Inr summary"
    by (simp add: summarize_text_spacy_def)
next
  show "count_words STOP_WORDS toks = [] \<or>
     (\<exists>max_f weights. py_max (map snd (count_words STOP_WORDS toks)) = Inr max_f \<and>
        1 \<le> max_f \<and> normalize (count_words STOP_WORDS toks) = Inr weights)"
  proof (cases "count_words STOP_WORDS toks = []")
    case True
    then show ?thesis by simp
  next
    case False
    have "py_max (map snd (count_words STOP_WORDS toks))
            = Inr (Max (set (map snd (count_words STOP_WORDS toks))))"
      using False by (simp add: py_max_Max)
    moreover have "1 \<le> Max (set (map snd (count_words STOP_WORDS toks)))"
      using False pos_counts_count_words by (rule Max_counts_pos)
    ultimately show ?thesis using normalize_count_words [OF False] by blast
  qed
next
  show "\<exists>sent_scores. score_sentences word_freq [] sentences = Inr sent_scores"
    by (simp add: score_sentences_eq)
qed

text \<open>
  C5. The score dictionary built by the scoring loop is the one the specification describes:
  a sentence of the document is a key exactly when it has a token that is neither space nor
  punctuation, and its value is then the sum of the weights of those tokens' lowercased
  lemmas (0 for a lemma without weight) divided by their number. Stop words are not skipped:
  the score does not depend on any token's stop-word flag.
\<close>

theorem sentence_scores_refine:
  "(\<exists>sent_scores. score_sentences weights [] sentences = Inr sent_scores \<and>
      (\<forall>s. map_of sent_scores s =
             (if s \<in> set sentences then spec_score weights s else None))) \<and>
   spec_score weights (sent\<lparr>tokens := map (\<lambda>t. t\<lparr>is_stop := b\<rparr>) (tokens sent)\<rparr>)
     = spec_score weights sent"
proof -
  have "map_of (foldl (record_score weights) [] sentences) s =
          (if s \<in> set sentences then spec_score weights s else None)" for s
    by (simp add: map_of_foldl_record_score)
  then show ?thesis
    by (simp add: score_sentences_eq spec_score_ignores_is_stop)
qed

theorem sentence_scores_refine_witness:
  "\<exists>sent_scores. score_sentences ex_weights [] (sents ex_doc) = Inr sent_scores \<and>
      map_of sent_scores ex_s0 = Some (1 / 2) \<and> map_of sent_scores ex_s1 = None \<and>
      map_of sent_scores ex_s2 = Some (3 / 4)"
proof -
  obtain sent_scores where
    sc: "score_sentences ex_weights [] (sents ex_doc) = Inr sent_scores"
    and m: "\<And>s. map_of sent_scores s =
             (if s \<in> set (sents ex_doc) then spec_score ex_weights s else None)"
    using sentence_scores_refine [of ex_weights "sents ex_doc"] by blast
  have "spec_score ex_weights ex_s0 = Some (1 / 2)" by code_simp
  moreover have "spec_score ex_weights ex_s1 = None" by code_simp
  moreover have "spec_score ex_weights ex_s2 = Some (3 / 4)" by code_simp
  moreover have "ex_s0 \<in> set (sents ex_doc)" "ex_s2 \<in> set (sents ex_doc)"
    by (simp_all add: ex_doc_def)
  ultimately show ?thesis using sc m by auto
qed

text \<open>
  C4. When the frequency map is not empty, normalization succeeds, keeps the keys, gives every
  key a weight in (0,1], and the largest weight is exactly 1. When no token passes the
  filters the frequency map is empty.
\<close>

theorem weights_normalized:
  "(count_words STOP_WORDS toks \<noteq> [] \<longrightarrow>
      (\<exists>weights. normalize (count_words STOP_WORDS toks) = Inr weights \<and>
         map fst weights = map fst (count_words STOP_WORDS toks) \<and>
         (\<forall>p \<in> set weights. 0 < snd p \<and> snd p \<le> 1) \<and>
         Max (snd ` set weights) = 1)) \<and>
   ((\<forall>t \<in> set toks. \<not> counted_token STOP_WORDS t) \<longrightarrow> count_words STOP_WORDS toks = [])"
proof (intro conjI impI)
  assume ne: "count_words STOP_WORDS toks \<noteq> []"
  let ?w = "norm_weights (count_words STOP_WORDS toks)"
  have "normalize (count_words STOP_WORDS toks) = Inr ?w"
    using ne by (rule normalize_count_words)
  moreover have "map fst ?w = map fst (count_words STOP_WORDS toks)"
    by (simp add: norm_weights_def comp_def)
  moreover have "\<forall>p \<in> set ?w. 0 < snd p \<and> snd p \<le> 1"
    using norm_weights_range [OF ne pos_counts_count_words] by blast
  moreover have "Max (snd ` set ?w) = 1"
    using ne pos_counts_count_words by (rule norm_weights_Max)
  ultimately show "\<exists>weights. normalize (count_words STOP_WORDS toks) = Inr weights \<and>
         map fst weights = map fst (count_words STOP_WORDS toks) \<and>
         (\<forall>p \<in> set weights. 0 < snd p \<and> snd p \<le> 1) \<and>
         Max (snd ` set weights) = 1"
    by blast
next
  assume "\<forall>t \<in> set toks. \<not> counted_token STOP_WORDS t"
  then show "count_words STOP_WORDS toks = []" by (simp add: count_words_Nil_iff)
qed

theorem weights_normalized_witness:
  "count_words ex_stop (doc_tokens ex_doc) \<noteq> [] \<and>
   normalize (count_words ex_stop (doc_tokens ex_doc)) = Inr ex_weights \<and>
   Max (snd ` set ex_weights) = 1 \<and>
   count_words ex_stop (tokens ex_s1) = []"
proof -
  have 1: "count_words ex_stop (doc_tokens ex_doc) \<noteq> []" by code_simp
  have 2: "\<forall>t \<in> set (tokens ex_s1). \<not> counted_token ex_stop t" by code_simp
  have 3: "normalize (count_words ex_stop (doc_tokens ex_doc)) = Inr ex_weights" by code_simp
  show ?thesis
    using 1 2 3 weights_normalized [of ex_stop "doc_tokens ex_doc"]
      weights_normalized [of ex_stop "tokens ex_s1"]
    by auto
qed

text \<open>
  C3. The sentences of the summary are in document order. The top K sentences are sorted by
  start before joining, so their starts are non-decreasing; and in a document whose
  sentences have strictly increasing starts the chosen sentences, in both branches, form a
  subsequence of the document's sentences with strictly increasing starts. For a non-blank
  text with at least one sentence the summary is the join of exactly these sentences.
\<close>

theorem output_in_document_order:
  "\<exists>chosen. select_sentences STOP_WORDS d ratio min_sentences max_sentences = Inr chosen \<and>
     (count_words STOP_WORDS (doc_tokens d) = [] \<or> sorted (map start chosen)) \<and>
     (sorted_wrt (<) (map start (sents d)) \<longrightarrow>
        sorted_wrt (<) (map start chosen) \<and> subseq chosen (sents d)) \<and>
     (text = [] \<or> strip text = [] \<or> sents d = [] \<or>
        summarize_text_spacy STOP_WORDS text d ratio min_sentences max_sentences
          = Inr (summary_of chosen))"
proof -
  obtain chosen where
    sel: "select_sentences STOP_WORDS d ratio min_sentences max_sentences = Inr chosen"
    using select_sentences_total by blast
  have 1: "count_words STOP_WORDS (doc_tokens d) = [] \<or> sorted (map start chosen)"
  proof (cases "count_words STOP_WORDS (doc_tokens d) = []")
    case True
    then show ?thesis by simp
  next
    case False
    from chosen_ranked [OF False, of ratio min_sentences max_sentences] sel
    obtain top where "chosen = sort_key start top" by auto
    then show ?thesis by simp
  qed
  have 2: "sorted_wrt (<) (map start chosen) \<and> subseq chosen (sents d)"
    if ord: "sorted_wrt (<) (map start (sents d))"
  proof (cases "count_words STOP_WORDS (doc_tokens d) = []")
    case True
    then have "chosen = slice_to (sents d) min_sentences"
      using sel by (simp add: select_sentences_empty)
    then obtain k where k: "chosen = take k (sents d)"
      using slice_to_take [of "sents d" min_sentences] by auto
    have "sorted_wrt (<) (take k (map start (sents d)))"
      using ord by (rule sorted_wrt_take)
    moreover have "subseq (take k (sents d)) (sents d)"
      by (rule prefix_imp_subseq) (rule take_is_prefix)
    ultimately show ?thesis by (simp add: k take_map)
  next
    case False
    from chosen_ranked [OF False, of ratio min_sentences max_sentences] sel
    obtain top where top: "chosen = sort_key start top" "distinct top"
      "set top \<subseteq> set (sents d)" by auto
    have eq: "chosen = filter (\<lambda>x. x \<in> set top) (sents d)"
      unfolding top(1) using ord top(2,3) by (rule sort_key_subseq)
    have "sorted_wrt (<) (map start (filter (\<lambda>x. x \<in> set top) (sents d)))"
      using ord by (simp add: strict_sorted_iff sorted_filter distinct_map_filter)
    then show ?thesis by (simp add: eq)
  qed
  have 3: "text = [] \<or> strip text = [] \<or> sents d = [] \<or>
        summarize_text_spacy STOP_WORDS text d ratio min_sentences max_sentences
          = Inr (summary_of chosen)"
    using summarize_eq [OF _ _ _ sel] by blast
  from sel 1 2 3 show ?thesis by blast
qed

theorem output_in_document_order_witness:
  "sorted_wrt (<) (map start (sents ex_doc)) \<and>
   nlargest 2 (map fst (ranked ex_stop ex_doc)) (\<lambda>s. the (map_of (ranked ex_stop ex_doc) s))
     = [ex_s2, ex_s0] \<and>
   select_sentences ex_stop ex_doc 1 2 8 = Inr [ex_s0, ex_s2] \<and>
   sorted_wrt (<) (map start [ex_s0, ex_s2]) \<and> subseq [ex_s0, ex_s2] (sents ex_doc) \<and>
   summarize_text_spacy ex_stop ex_text ex_doc 1 2 8 = Inr (summary_of [ex_s0, ex_s2])"
proof -
  have 1: "sorted_wrt (<) (map start (sents ex_doc))" by code_simp
  have 2: "nlargest 2 (map fst (ranked ex_stop ex_doc))
             (\<lambda>s. the (map_of (ranked ex_stop ex_doc) s)) = [ex_s2, ex_s0]"
    by code_simp
  have 3: "select_sentences ex_stop ex_doc 1 2 8 = Inr [ex_s0, ex_s2]" by code_simp
  have 4: "ex_text \<noteq> []" "strip ex_text \<noteq> []" "sents ex_doc \<noteq> []" by code_simp+
  show ?thesis
    using 1 2 3 4 output_in_document_order [of ex_stop ex_doc 1 2 8 ex_text] by auto
qed

text \<open>
  C6. When no token of the document passes the content-word filters, and the text is not
  blank and has sentences, the summarizer returns without error the trimmed texts of the
  first \<open>min_sentences\<close> sentences (all of them when there are fewer), joined by single
  spaces. The count \<open>min_sentences\<close> is not negative.
\<close>

theorem fallback_without_content_words:
  assumes "\<forall>t \<in> set (doc_tokens d). \<not> counted_token STOP_WORDS t"
    and "text \<noteq> []" "strip text \<noteq> []" "sents d \<noteq> []" "0 \<le> min_sentences"
  shows "summarize_text_spacy STOP_WORDS text d ratio min_sentences max_sentences
           = Inr (join '' '' (map (\<lambda>s. strip (span_text s))
                                  (take (nat min_sentences) (sents d))))"
proof -
  have "count_words STOP_WORDS (doc_tokens d) = []"
    using assms(1) by (simp add: count_words_Nil_iff)
  then have "select_sentences STOP_WORDS d ratio min_sentences max_sentences
               = Inr (take (nat min_sentences) (sents d))"
    using assms(5) by (simp add: select_sentences_empty slice_to_def)
  from summarize_eq [OF assms(2-4) this] show ?thesis by (simp add: summary_of_def)
qed

theorem fallback_without_content_words_witness:
  "summarize_text_spacy ex_stop ''The !   ...  A ?'' quiet_doc (3 / 10) 2 8 = Inr ''The ! ...'' \<and>
   summarize_text_spacy ex_stop ''The !   ...  A ?'' quiet_doc (3 / 10) 5 8
     = Inr ''The ! ... A ?''"
proof -
  have 1: "\<forall>t \<in> set (doc_tokens quiet_doc). \<not> counted_token ex_stop t" by code_simp
  have 2: "''The !   ...  A ?'' \<noteq> []" "strip ''The !   ...  A ?'' \<noteq> []"
    "sents quiet_doc \<noteq> []" by code_simp+
  have 3: "join '' '' (map (\<lambda>s. strip (span_text s)) (take (nat 2) (sents quiet_doc)))
             = ''The ! ...''" by code_simp
  have 4: "join '' '' (map (\<lambda>s. strip (span_text s)) (take (nat 5) (sents quiet_doc)))
             = ''The ! ... A ?''" by code_simp
  show ?thesis
    using fallback_without_content_words [OF 1 2, of 2 "3 / 10" 8]
      fallback_without_content_words [OF 1 2, of 5 "3 / 10" 8] 3 4
    by simp
qed

text \<open>
  C8. For a non-blank text whose document is exactly one sentence, and every valid
  configuration, the summary is the trimmed text of that sentence.
\<close>

theorem single_sentence_document:
  assumes "wf_doc d" "sents d = [s]" "text \<noteq> []" "strip text \<noteq> []"
    and "valid_config ratio min_sentences max_sentences"
  shows "summarize_text_spacy STOP_WORDS text d ratio min_sentences max_sentences
           = Inr (strip (span_text s))"
proof -
  have mn: "1 \<le> min_sentences" and mx: "1 \<le> max_sentences"
    using assms(5) by (simp_all add: valid_config_def)
  have toks: "doc_tokens d = tokens s" using assms(1,2) by (simp add: wf_doc_def)
  have "select_sentences STOP_WORDS d ratio min_sentences max_sentences = Inr [s]"
  proof (cases "count_words STOP_WORDS (doc_tokens d) = []")
    case True
    have "take (nat min_sentences) [s] = [s]" using mn by (cases "nat min_sentences") auto
    then show ?thesis using True mn assms(2) by (simp add: select_sentences_empty slice_to_def)
  next
    case False
    then obtain t where t: "t \<in> set (tokens s)" "counted_token STOP_WORDS t"
      using toks by (auto simp: count_words_Nil_iff)
    then have "content_token t" by (simp add: counted_token_def content_token_def)
    then have "scorable s" using t(1) by (auto simp: scorable_def filter_empty_conv)
    then have keys: "map fst (ranked STOP_WORDS d) = [s]"
      using keys_ranked [of d STOP_WORDS] assms(2) by simp
    have K: "target_K ratio min_sentences max_sentences (length (sents d)) = 1"
      using mn mx assms(2) by (simp add: target_K_def Let_def)
    show ?thesis
      by (simp add: select_sentences_ranked [OF False] keys K nlargest_def)
  qed
  from summarize_eq [OF assms(3,4) _ this] assms(2) show ?thesis by (simp add: summary_of_def)
qed

theorem single_sentence_document_witness:
  "wf_doc one_doc \<and> valid_config (3 / 10) 3 8 \<and>
   summarize_text_spacy ex_stop ''Cats sleep.'' one_doc (3 / 10) 3 8 = Inr ''Cats sleep.''"
proof -
  have 1: "wf_doc one_doc" by code_simp
  have 2: "sents one_doc = [tie_s0]" by code_simp
  have 3: "''Cats sleep.'' \<noteq> []" "strip ''Cats sleep.'' \<noteq> []" by code_simp+
  have 4: "valid_config (3 / 10) 3 8" by code_simp
  have 5: "strip (span_text tie_s0) = ''Cats sleep.''" by code_simp
  show ?thesis
    using single_sentence_document [OF 1 2 3 4, of ex_stop] 1 4 5 by simp
qed

text \<open>
  C1 (amended). For a non-blank text, a document of pairwise distinct sentences and a
  configuration with \<open>1 \<le> min_sentences \<le> max_sentences\<close>: when at least \<open>min_sentences\<close>
  sentences have a token that is neither space nor punctuation, the summary is the join of
  at least \<open>min_sentences\<close> and at most \<open>min max_sentences (length (sents d))\<close> sentences.
\<close>

theorem summary_sentence_count:
  assumes "text \<noteq> []" "strip text \<noteq> []" "distinct (sents d)"
    and "1 \<le> min_sentences" "min_sentences \<le> max_sentences"
    and "min_sentences \<le> int (length (filter scorable (sents d)))"
  shows "\<exists>chosen. select_sentences STOP_WORDS d ratio min_sentences max_sentences = Inr chosen \<and>
     summarize_text_spacy STOP_WORDS text d ratio min_sentences max_sentences
       = Inr (summary_of chosen) \<and>
     min_sentences \<le> int (length chosen) \<and>
     int (length chosen) \<le> min max_sentences (int (length (sents d)))"
proof -
  let ?n = "length (sents d)"
  have fl: "length (filter scorable (sents d)) \<le> ?n" by (rule length_filter_le)
  then have n: "min_sentences \<le> int ?n" using assms(6) by linarith
  then have ne: "sents d \<noteq> []" using assms(4) by auto
  obtain chosen where
    sel: "select_sentences STOP_WORDS d ratio min_sentences max_sentences = Inr chosen"
    using select_sentences_total by blast
  have len: "min_sentences \<le> int (length chosen) \<and>
     int (length chosen) \<le> min max_sentences (int ?n)"
  proof (cases "count_words STOP_WORDS (doc_tokens d) = []")
    case True
    then have "chosen = slice_to (sents d) min_sentences"
      using sel by (simp add: select_sentences_empty)
    then have "length chosen = min (nat min_sentences) ?n"
      using assms(4) by (simp add: length_slice_to)
    then show ?thesis using n assms(4,5) by simp
  next
    case False
    let ?K = "target_K ratio min_sentences max_sentences ?n"
    from chosen_ranked [OF False, of ratio min_sentences max_sentences] sel
    obtain top where top: "chosen = sort_key start top"
      "length top = min (nat ?K) (length (map fst (ranked STOP_WORDS d)))" by auto
    have "length chosen = min (nat ?K) (length (filter scorable (sents d)))"
      using top keys_ranked [OF assms(3), of STOP_WORDS] by simp
    moreover have "min_sentences \<le> ?K" using assms(5) n by (rule target_K_lower)
    moreover have "?K \<le> min max_sentences (int ?n)" by (rule target_K_upper)
    ultimately show ?thesis using assms(4,6) fl by (auto simp: min_def)
  qed
  from summarize_eq [OF assms(1,2) ne sel] sel len show ?thesis by blast
qed

theorem summary_sentence_count_witness:
  "select_sentences ex_stop ex_doc (3 / 10) 2 8 = Inr [ex_s0, ex_s2] \<and>
   summarize_text_spacy ex_stop ex_text ex_doc (3 / 10) 2 8 = Inr ''The cats purr. Cats sleep.'' \<and>
   (2::int) \<le> int (length [ex_s0, ex_s2]) \<and>
   int (length [ex_s0, ex_s2]) \<le> min 8 (int (length (sents ex_doc)))"
proof -
  have 1: "ex_text \<noteq> []" "strip ex_text \<noteq> []" "distinct (sents ex_doc)" by code_simp+
  have 2: "(1::int) \<le> 2" "(2::int) \<le> 8" by simp_all
  have 3: "2 \<le> int (length (filter scorable (sents ex_doc)))" by code_simp
  have 4: "select_sentences ex_stop ex_doc (3 / 10) 2 8 = Inr [ex_s0, ex_s2]" by code_simp
  have 5: "summary_of [ex_s0, ex_s2] = ''The cats purr. Cats sleep.''" by code_simp
  show ?thesis
    using summary_sentence_count [OF 1 2 3, of ex_stop "3 / 10"] 4 5 by auto
qed

text \<open>
  The claim as first stated counts all sentences. A document of three sentences whose second
  is a lone exclamation mark yields two sentences for \<open>min_sentences = 3\<close>, because a sentence
  without scored token is never selected; with \<open>min_sentences = 2 > max_sentences = 1\<close> one
  sentence is returned; and a text of blanks gives the empty summary.
\<close>

theorem summary_sentence_count_counterexample:
  "ex_text \<noteq> [] \<and> length (sents ex_doc) = 3 \<and>
   select_sentences ex_stop ex_doc (3 / 10) 3 8 = Inr [ex_s0, ex_s2] \<and>
   summarize_text_spacy ex_stop ex_text ex_doc (3 / 10) 3 8 = Inr ''The cats purr. Cats sleep.'' \<and>
   select_sentences ex_stop ex_doc (3 / 10) 2 1 = Inr [ex_s2] \<and>
   summarize_text_spacy ex_stop ex_text ex_doc (3 / 10) 2 1 = Inr ''Cats sleep.'' \<and>
   length (sents blank_doc) = 1 \<and>
   summarize_text_spacy ex_stop ''   '' blank_doc (3 / 10) 1 8 = Inr []"
  by code_simp









end
